theory Spec2Isabelle
  imports Main "HOL-Library.Sublist"
begin

section \<open>Python values used by \<open>forum/common/utils.py\<close>\<close>

text \<open>
  A Python \<open>str\<close> is a sequence of Unicode code points, and \<open>len\<close>, \<open>find\<close> and slicing
  count code points.  A string is therefore a list of code points (natural numbers);
  \<open>py\<close> embeds an ASCII literal.
\<close>

type_synonym pystr = "nat list"

definition py :: "string \<Rightarrow> pystr" where
  "py s = map of_char s"

text \<open>The only exception the modelled code could raise is an out-of-range list index.\<close>

datatype error = IndexError

text \<open>\<open>sys.maxsize\<close> of a 64-bit CPython; no \<open>str\<close> or \<open>list\<close> is longer.\<close>

definition sys_maxsize :: int where
  "sys_maxsize = 2 ^ 63 - 1"

text \<open>\<open>xs[i]\<close> for an index \<open>i \<ge> 0\<close>: IndexError out of range.\<close>

definition list_get :: "'a list \<Rightarrow> nat \<Rightarrow> error + 'a" where
  "list_get xs i = (if i < length xs then Inr (xs ! i) else Inl IndexError)"

text \<open>
  \<open>sub in s\<close> and \<open>s.find(sub)\<close>: whether, and at which least offset, \<open>sub\<close> occurs in
  \<open>s\<close> as a contiguous substring; \<open>find\<close> returns \<open>-1\<close> when it does not occur.
\<close>

fun str_contains :: "pystr \<Rightarrow> pystr \<Rightarrow> bool" where
  "str_contains sub [] = (sub = [])"
| "str_contains sub (c # cs) = (prefix sub (c # cs) \<or> str_contains sub cs)"

fun str_find_from :: "pystr \<Rightarrow> pystr \<Rightarrow> nat \<Rightarrow> int" where
  "str_find_from sub [] i = (if sub = [] then int i else - 1)"
| "str_find_from sub (c # cs) i =
     (if prefix sub (c # cs) then int i else str_find_from sub cs (Suc i))"

definition str_find :: "pystr \<Rightarrow> pystr \<Rightarrow> int" where
  "str_find sub s = str_find_from sub s 0"

text \<open>
  The code points for which \<open>str.isspace\<close> holds; \<open>s.lstrip()\<close> without an argument
  removes the longest prefix made of them.
\<close>

definition py_isspace :: "nat \<Rightarrow> bool" where
  "py_isspace c =
     ((9 \<le> c \<and> c \<le> 13) \<or> (28 \<le> c \<and> c \<le> 32) \<or> c = 133 \<or> c = 160 \<or> c = 5760
      \<or> (8192 \<le> c \<and> c \<le> 8202) \<or> c = 8232 \<or> c = 8233 \<or> c = 8239 \<or> c = 8287
      \<or> c = 12288)"

definition lstrip :: "pystr \<Rightarrow> pystr" where
  "lstrip s = dropWhile py_isspace s"

text \<open>
  The slice \<open>s[d:]\<close>: a negative \<open>d\<close> counts from the end of \<open>s\<close>, and the start is
  clipped to the range \<open>0 .. len(s)\<close>.
\<close>

definition slice_from :: "'a list \<Rightarrow> int \<Rightarrow> 'a list" where
  "slice_from s d =
     (let n = int (length s);
          b = (if d < 0 then max (d + n) 0 else min d n)
      in drop (nat b) s)"

text \<open>\<open>s.split('\n')\<close> and \<open>'\n'.join(lines)\<close>; the newline is code point 10.\<close>

definition NL :: nat where
  "NL = 10"

fun split_nl :: "pystr \<Rightarrow> pystr list" where
  "split_nl [] = [[]]"
| "split_nl (c # cs) =
     (if c = NL then [] # split_nl cs
      else (case split_nl cs of [] \<Rightarrow> [[c]] | l # ls \<Rightarrow> (c # l) # ls))"

fun join_nl :: "pystr list \<Rightarrow> pystr" where
  "join_nl [] = []"
| "join_nl [l] = l"
| "join_nl (l # ls) = l @ NL # join_nl ls"

section \<open>The code-block dedenter\<close>

text \<open>The fence marker: three backticks (code point 96).\<close>

definition fence :: pystr where
  "fence = [96, 96, 96]"

text \<open>
  \<open>_find_code_blocks\<close>: the loop over \<open>enumerate(markdown_text_lines)\<close> carries the
  index \<open>i\<close>, the pending \<open>start\<close> (None or an index) and the list \<open>res\<close>.
\<close>

fun find_code_blocks_loop ::
  "pystr list \<Rightarrow> nat \<Rightarrow> nat option \<Rightarrow> (nat \<times> nat) list \<Rightarrow> (nat \<times> nat) list" where
  "find_code_blocks_loop [] i start res = res"
| "find_code_blocks_loop (line # rest) i start res =
     (if str_contains fence line then
        (case start of
           None \<Rightarrow> find_code_blocks_loop rest (Suc i) (Some i) res
         | Some s \<Rightarrow> find_code_blocks_loop rest (Suc i) None (res @ [(s, i)]))
      else find_code_blocks_loop rest (Suc i) start res)"

definition find_code_blocks :: "pystr list \<Rightarrow> (nat \<times> nat) list" where
  "find_code_blocks markdown_text_lines = find_code_blocks_loop markdown_text_lines 0 None []"

text \<open>
  \<open>_dedent_code_block\<close>, lines 22 to 24: the first loop over \<open>range(start + 1, end)\<close>,
  with \<open>line_start\<close> as its state.
\<close>

definition indent :: "pystr \<Rightarrow> int" where
  "indent l = int (length l) - int (length (lstrip l))"

fun line_start_loop :: "pystr list \<Rightarrow> nat list \<Rightarrow> int \<Rightarrow> error + int" where
  "line_start_loop lines [] line_start = Inr line_start"
| "line_start_loop lines (i # rng) line_start =
     (case list_get lines i of
        Inl e \<Rightarrow> Inl e
      | Inr l \<Rightarrow> line_start_loop lines rng (min line_start (indent l)))"

text \<open>Lines 21 to 26: the value of \<open>dedent_chars\<close>.\<close>

definition dedent_chars :: "pystr list \<Rightarrow> nat \<Rightarrow> nat \<Rightarrow> error + int" where
  "dedent_chars lines start end =
     (case list_get lines start of
        Inl e \<Rightarrow> Inl e
      | Inr l0 \<Rightarrow>
          (let fence_start = str_find fence l0 in
           case line_start_loop lines [Suc start ..< end] sys_maxsize of
             Inl e \<Rightarrow> Inl e
           | Inr line_start0 \<Rightarrow>
               (let line_start = max line_start0 0 in Inr (line_start - fence_start))))"

text \<open>Lines 29 and 30: the second loop, which overwrites \<open>lines[i]\<close>.\<close>

fun slice_loop :: "pystr list \<Rightarrow> nat list \<Rightarrow> int \<Rightarrow> error + pystr list" where
  "slice_loop lines [] d = Inr lines"
| "slice_loop lines (i # rng) d =
     (case list_get lines i of
        Inl e \<Rightarrow> Inl e
      | Inr l \<Rightarrow> slice_loop (lines[i := slice_from l d]) rng d)"

text \<open>\<open>_dedent_code_block\<close>: the list is mutated in place, so the model returns it.\<close>

definition dedent_code_block :: "pystr list \<Rightarrow> nat \<Rightarrow> nat \<Rightarrow> error + pystr list" where
  "dedent_code_block lines start end =
     (case dedent_chars lines start end of
        Inl e \<Rightarrow> Inl e
      | Inr d \<Rightarrow> if d = 0 then Inr lines else slice_loop lines [Suc start ..< end] d)"

text \<open>\<open>dedent_code\<close>: the loop over the sections, then the join.\<close>

fun dedent_sections :: "pystr list \<Rightarrow> (nat \<times> nat) list \<Rightarrow> error + pystr list" where
  "dedent_sections lines [] = Inr lines"
| "dedent_sections lines (section # rest) =
     (case dedent_code_block lines (fst section) (snd section) of
        Inl e \<Rightarrow> Inl e
      | Inr lines' \<Rightarrow> dedent_sections lines' rest)"

definition dedent_code :: "pystr \<Rightarrow> error + pystr" where
  "dedent_code markdown_text =
     (let lines = split_nl markdown_text;
          code_blocks_sections = find_code_blocks lines
      in case dedent_sections lines code_blocks_sections of
           Inl e \<Rightarrow> Inl e
         | Inr lines' \<Rightarrow> Inr (join_nl lines'))"

text \<open>
  The pairing of fence markers in the words of the specification: the indices of the
  lines that contain the marker, in document order, taken two at a time; a last marker
  without a partner is dropped.
\<close>

definition marker_indices :: "pystr list \<Rightarrow> nat list" where
  "marker_indices lines = filter (\<lambda>i. str_contains fence (lines ! i)) [0 ..< length lines]"

fun pair_up :: "nat list \<Rightarrow> (nat \<times> nat) list" where
  "pair_up (a # b # rest) = (a, b) # pair_up rest"
| "pair_up [a] = []"
| "pair_up [] = []"

text \<open>
  The dedent amount in the words of the specification: the least count of leading space
  characters (code point 32) among the body lines, minus the fence column.
\<close>

definition spec_leading_spaces :: "pystr \<Rightarrow> int" where
  "spec_leading_spaces l = int (length (takeWhile (\<lambda>c. c = 32) l))"

definition spec_dedent_chars :: "pystr list \<Rightarrow> nat \<Rightarrow> nat \<Rightarrow> int" where
  "spec_dedent_chars lines start end =
     Min (set (map (\<lambda>i. spec_leading_spaces (lines ! i)) [Suc start ..< end]))
       - str_find fence (lines ! start)"

section \<open>Request parameters\<close>

text \<open>
  \<open>request.GET\<close> is a Django \<open>QueryDict\<close>: a dictionary from a parameter name to the
  list of its values.  It is falsy when it has no key; \<open>get(key, default)\<close> returns the
  last value of the key, and the default when the key is missing or its list is empty.
\<close>

type_synonym QueryDict = "(pystr \<times> pystr list) list"

record HttpRequest =
  GET :: QueryDict

definition querydict_get :: "QueryDict \<Rightarrow> pystr \<Rightarrow> pystr option \<Rightarrow> pystr option" where
  "querydict_get d key default_value =
     (case map_of d key of
        None \<Rightarrow> default_value
      | Some vs \<Rightarrow> if vs = [] then default_value else Some (last vs))"

definition get_request_param :: "HttpRequest \<Rightarrow> pystr \<Rightarrow> pystr option \<Rightarrow> pystr option" where
  "get_request_param request param_name default_value =
     (if GET request \<noteq> [] then querydict_get (GET request) param_name default_value
      else default_value)"

definition tabs :: "pystr set" where
  "tabs = {py ''mostviewed'', py ''unanswered'', py ''latest'', py ''unresolved''}"

definition get_request_tab :: "HttpRequest \<Rightarrow> pystr" where
  "get_request_tab request =
     (case get_request_param request (py ''tab'') (Some (py ''latest'')) of
        None \<Rightarrow> py ''latest''
      | Some res \<Rightarrow> if res \<in> tabs then res else py ''latest'')"

section \<open>The \<open>humanize_number\<close> template filter\<close>

text \<open>
  The filter returns the empty \<open>str\<close>, a formatted \<open>str\<close> or the \<open>int\<close> it was given.
  \<open>Formatted q sfx\<close> stands for the \<open>str\<close> that \<open>('{:,}' + sfx).format(q / 10)\<close>
  builds from the float \<open>q / 10\<close>; the digits of that float are not interpreted here.
\<close>

datatype humanized = Text pystr | Formatted int pystr | Number int

text \<open>
  The true division \<open>q / 10\<close> of two \<open>int\<close>s rounds the exact quotient to the nearest
  double and raises OverflowError when that is beyond the largest one,
  \<open>2 ^ 1024 - 2 ^ 971\<close>: that is, when the quotient reaches the midpoint
  \<open>2 ^ 1024 - 2 ^ 970\<close> between the largest double and \<open>2 ^ 1024\<close>.
\<close>

datatype arith_error = OverflowError

definition float_overflow_bound :: int where
  "float_overflow_bound = 2 ^ 1024 - 2 ^ 970"

definition div10_overflows :: "int \<Rightarrow> bool" where
  "div10_overflows q = (10 * float_overflow_bound \<le> \<bar>q\<bar>)"

definition format_div10 :: "int \<Rightarrow> pystr \<Rightarrow> arith_error + humanized" where
  "format_div10 q sfx =
     (if div10_overflows q then Inl OverflowError else Inr (Formatted q sfx))"

definition humanize_number :: "int option \<Rightarrow> arith_error + humanized" where
  "humanize_number value =
     (case value of
        None \<Rightarrow> Inr (Text [])
      | Some v \<Rightarrow>
          if v > 1000000000 then format_div10 (v div 100000000) (py ''B'')
          else if v > 1000000 then format_div10 (v div 100000) (py ''m'')
          else if v > 1000 then format_div10 (v div 100) (py ''k'')
          else Inr (Number v))"

text \<open>The marker indices of a suffix of the document that begins at line \<open>i\<close>.\<close>

fun marker_indices_from :: "pystr list \<Rightarrow> nat \<Rightarrow> nat list" where
  "marker_indices_from [] i = []"
| "marker_indices_from (l # ls) i =
     (if str_contains fence l then i # marker_indices_from ls (Suc i)
      else marker_indices_from ls (Suc i))"

section \<open>Strings, splitting and joining\<close>

lemma str_contains_sublist: "str_contains sub s = sublist sub s"
  by (induction s) (simp_all add: sublist_Cons_right)

lemma suffix_slice_from: "suffix (slice_from s d) s"
  by (simp add: slice_from_def Let_def suffix_drop)

lemma split_nl_nonempty: "split_nl s \<noteq> []"
  by (induction s) (auto split: list.splits)

lemma join_split_nl: "join_nl (split_nl s) = s"
proof (induction s)
  case Nil show ?case by simp
next
  case (Cons c cs)
  then show ?case
    using split_nl_nonempty[of cs]
    by (cases "split_nl cs"; cases "tl (split_nl cs)") auto
qed

lemma split_nl_no_newline: "l \<in> set (split_nl s) \<Longrightarrow> NL \<notin> set l"
  by (induction s arbitrary: l) (auto split: if_splits list.splits)

lemma split_nl_line: "NL \<notin> set l \<Longrightarrow> split_nl l = [l]"
  by (induction l) auto

lemma split_nl_append: "NL \<notin> set l \<Longrightarrow> split_nl (l @ NL # s) = l # split_nl s"
  by (induction l) auto

lemma split_join_nl:
  "lines \<noteq> [] \<Longrightarrow> \<forall>l \<in> set lines. NL \<notin> set l \<Longrightarrow> split_nl (join_nl lines) = lines"
proof (induction lines rule: join_nl.induct)
  case 1 then show ?case by simp
next
  case (2 l) then show ?case by (simp add: split_nl_line)
next
  case (3 l v va) then show ?case by (simp add: split_nl_append)
qed

lemma join_nl_sublist: "l \<in> set lines \<Longrightarrow> sublist l (join_nl lines)"
proof (induction lines rule: join_nl.induct)
  case 1 then show ?case by simp
next
  case (2 l') then show ?case by simp
next
  case (3 l' v va)
  show ?case
  proof (cases "l = l'")
    case True
    then show ?thesis by simp
  next
    case False
    with 3 have "sublist l (join_nl (v # va))" by simp
    then have "sublist l (l' @ NL # join_nl (v # va))"
      by (metis sublist_Cons_right sublist_order.order_trans suffix_imp_sublist suffix_appendI suffix_order.order_refl)
    then show ?thesis by simp
  qed
qed

lemma split_nl_sublist: "l \<in> set (split_nl s) \<Longrightarrow> sublist l s"
  using join_nl_sublist[of l "split_nl s"] by (simp add: join_split_nl)

lemma split_nl_no_fence:
  "\<not> str_contains fence s \<Longrightarrow> l \<in> set (split_nl s) \<Longrightarrow> \<not> str_contains fence l"
  unfolding str_contains_sublist
  using split_nl_sublist sublist_order.order_trans by blast

lemma find_code_blocks_loop_pair_up:
  "find_code_blocks_loop lines i start res =
     res @ pair_up ((case start of None \<Rightarrow> [] | Some s \<Rightarrow> [s]) @ marker_indices_from lines i)"
  by (induction lines arbitrary: i start res) (auto split: option.splits)

lemma marker_indices_from_filter:
  "marker_indices_from lines i =
     map (\<lambda>k. i + k) (filter (\<lambda>k. str_contains fence (lines ! k)) [0 ..< length lines])"
proof (induction lines arbitrary: i)
  case Nil show ?case by simp
next
  case (Cons l ls)
  have upt: "[0 ..< length (l # ls)] = 0 # map Suc [0 ..< length ls]"
    by (simp add: upt_conv_Cons map_Suc_upt del: upt_Suc)
  show ?case
    unfolding upt by (simp add: Cons.IH filter_map comp_def)
qed


lemma marker_indices_from_0: "marker_indices_from lines 0 = marker_indices lines"
  by (simp add: marker_indices_from_filter marker_indices_def)

lemma find_code_blocks_pair_up: "find_code_blocks lines = pair_up (marker_indices lines)"
  by (simp add: find_code_blocks_def find_code_blocks_loop_pair_up marker_indices_from_0)

lemma sorted_marker_indices: "sorted_wrt (<) (marker_indices lines)"
  by (simp add: marker_indices_def sorted_wrt_filter)

lemma marker_indices_bound: "i \<in> set (marker_indices lines) \<Longrightarrow> i < length lines"
  by (simp add: marker_indices_def)

lemma pair_up_set:
  "(a, b) \<in> set (pair_up ms) \<Longrightarrow> a \<in> set ms \<and> b \<in> set ms"
  by (induction ms rule: pair_up.induct) auto

lemma pair_up_ordered:
  "sorted_wrt (<) ms \<Longrightarrow> (a, b) \<in> set (pair_up ms) \<Longrightarrow> a < b"
  by (induction ms rule: pair_up.induct) auto

lemma pair_up_before_last:
  "sorted_wrt (<) ms \<Longrightarrow> odd (length ms) \<Longrightarrow> (a, b) \<in> set (pair_up ms) \<Longrightarrow> b < last ms"
proof (induction ms rule: pair_up.induct)
  case (1 x y rest)
  then have ne: "rest \<noteq> []" by auto
  show ?case
  proof (cases "(a, b) = (x, y)")
    case True
    then show ?thesis using 1(2) ne by auto
  next
    case False
    then have "b < last rest" using 1 by auto
    then show ?thesis using ne by simp
  qed
qed auto

lemma find_code_blocks_bounds:
  "(a, b) \<in> set (find_code_blocks lines) \<Longrightarrow> a < b \<and> b < length lines"
  using pair_up_set[of a b "marker_indices lines"] pair_up_ordered[OF sorted_marker_indices, of a b lines]
  by (simp add: find_code_blocks_pair_up marker_indices_bound)

section \<open>What the dedenter changes\<close>

lemma line_start_loop_total:
  "\<forall>i \<in> set rng. i < length lines \<Longrightarrow> \<exists>v. line_start_loop lines rng ls = Inr v"
  by (induction rng arbitrary: ls) (auto simp: list_get_def)

lemma dedent_chars_total:
  "start < length lines \<Longrightarrow> end \<le> length lines \<Longrightarrow> \<exists>d. dedent_chars lines start end = Inr d"
  using line_start_loop_total[of "[Suc start ..< end]" lines sys_maxsize]
  by (auto simp: dedent_chars_def list_get_def Let_def split: sum.splits)

lemma slice_loop_frame:
  "\<forall>i \<in> set rng. i < length lines \<Longrightarrow>
   \<exists>lines'. slice_loop lines rng d = Inr lines' \<and> length lines' = length lines
     \<and> (\<forall>j < length lines. j \<notin> set rng \<longrightarrow> lines' ! j = lines ! j)
     \<and> (\<forall>j < length lines. suffix (lines' ! j) (lines ! j))"
proof (induction rng arbitrary: lines)
  case Nil
  then show ?case by simp
next
  case (Cons i rng)
  let ?upd = "lines[i := slice_from (lines ! i) d]"
  have i: "i < length lines" using Cons.prems by simp
  have "\<forall>k \<in> set rng. k < length ?upd" using Cons.prems by simp
  from Cons.IH[OF this] obtain lines' where
    r: "slice_loop ?upd rng d = Inr lines'" and len: "length lines' = length ?upd"
    and frame: "\<forall>j < length ?upd. j \<notin> set rng \<longrightarrow> lines' ! j = ?upd ! j"
    and suf: "\<forall>j < length ?upd. suffix (lines' ! j) (?upd ! j)"
    by blast
  have "slice_loop lines (i # rng) d = Inr lines'" using i r by (simp add: list_get_def)
  moreover have "length lines' = length lines" using len by simp
  moreover have "\<forall>j < length lines. j \<notin> set (i # rng) \<longrightarrow> lines' ! j = lines ! j"
    using frame by auto
  moreover have "\<forall>j < length lines. suffix (lines' ! j) (lines ! j)"
  proof (intro allI impI)
    fix j assume j: "j < length lines"
    then have s1: "suffix (lines' ! j) (?upd ! j)" using suf by simp
    have "suffix (?upd ! j) (lines ! j)"
      using j by (cases "j = i") (simp_all add: suffix_slice_from)
    with s1 show "suffix (lines' ! j) (lines ! j)" by (rule suffix_order.order_trans)
  qed
  ultimately show ?case by blast
qed

lemma dedent_code_block_frame:
  assumes "start < length lines" and "end \<le> length lines"
  shows "\<exists>lines'. dedent_code_block lines start end = Inr lines' \<and> length lines' = length lines
     \<and> (\<forall>j < length lines. \<not> (start < j \<and> j < end) \<longrightarrow> lines' ! j = lines ! j)
     \<and> (\<forall>j < length lines. suffix (lines' ! j) (lines ! j))"
proof -
  obtain d where d: "dedent_chars lines start end = Inr d"
    using dedent_chars_total[OF assms] by blast
  show ?thesis
  proof (cases "d = 0")
    case True
    then show ?thesis using d by (simp add: dedent_code_block_def)
  next
    case False
    have "\<forall>i \<in> set [Suc start ..< end]. i < length lines" using assms by simp
    from slice_loop_frame[OF this, of d] obtain lines' where
      "slice_loop lines [Suc start ..< end] d = Inr lines'" "length lines' = length lines"
      "\<forall>j < length lines. j \<notin> set [Suc start ..< end] \<longrightarrow> lines' ! j = lines ! j"
      "\<forall>j < length lines. suffix (lines' ! j) (lines ! j)"
      by blast
    then show ?thesis using d False by (auto simp: dedent_code_block_def)
  qed
qed

lemma dedent_sections_frame:
  "\<forall>sec \<in> set secs. fst sec < length lines \<and> snd sec \<le> length lines \<Longrightarrow>
   \<exists>lines'. dedent_sections lines secs = Inr lines' \<and> length lines' = length lines
     \<and> (\<forall>j < length lines. (\<forall>sec \<in> set secs. \<not> (fst sec < j \<and> j < snd sec)) \<longrightarrow> lines' ! j = lines ! j)
     \<and> (\<forall>j < length lines. suffix (lines' ! j) (lines ! j))"
proof (induction secs arbitrary: lines)
  case Nil
  then show ?case by simp
next
  case (Cons sec secs)
  have "fst sec < length lines" "snd sec \<le> length lines" using Cons.prems by simp_all
  from dedent_code_block_frame[OF this] obtain l1 where
    b: "dedent_code_block lines (fst sec) (snd sec) = Inr l1" and len1: "length l1 = length lines"
    and fr1: "\<forall>j < length lines. \<not> (fst sec < j \<and> j < snd sec) \<longrightarrow> l1 ! j = lines ! j"
    and su1: "\<forall>j < length lines. suffix (l1 ! j) (lines ! j)"
    by blast
  have "\<forall>s \<in> set secs. fst s < length l1 \<and> snd s \<le> length l1"
    using Cons.prems len1 by simp
  from Cons.IH[OF this] obtain l2 where
    r: "dedent_sections l1 secs = Inr l2" and len2: "length l2 = length l1"
    and fr2: "\<forall>j < length l1. (\<forall>s \<in> set secs. \<not> (fst s < j \<and> j < snd s)) \<longrightarrow> l2 ! j = l1 ! j"
    and su2: "\<forall>j < length l1. suffix (l2 ! j) (l1 ! j)"
    by blast
  have "dedent_sections lines (sec # secs) = Inr l2" using b r by simp
  moreover have "length l2 = length lines" using len1 len2 by simp
  moreover have "\<forall>j < length lines. (\<forall>s \<in> set (sec # secs). \<not> (fst s < j \<and> j < snd s)) \<longrightarrow> l2 ! j = lines ! j"
    using fr1 fr2 len1 by simp
  moreover have "\<forall>j < length lines. suffix (l2 ! j) (lines ! j)"
    using su1 su2 len1 by (metis suffix_order.order_trans)
  ultimately show ?case by blast
qed

lemma dedent_code_lines:
  "\<exists>lines'. dedent_sections (split_nl s) (find_code_blocks (split_nl s)) = Inr lines'
     \<and> dedent_code s = Inr (join_nl lines')
     \<and> split_nl (join_nl lines') = lines'
     \<and> length lines' = length (split_nl s)
     \<and> (\<forall>j < length (split_nl s).
           (\<forall>sec \<in> set (find_code_blocks (split_nl s)). \<not> (fst sec < j \<and> j < snd sec))
             \<longrightarrow> lines' ! j = split_nl s ! j)
     \<and> (\<forall>j < length (split_nl s). suffix (lines' ! j) (split_nl s ! j))"
proof -
  let ?lines = "split_nl s"
  have "\<forall>sec \<in> set (find_code_blocks ?lines). fst sec < length ?lines \<and> snd sec \<le> length ?lines"
    using find_code_blocks_bounds[of _ _ ?lines] by fastforce
  from dedent_sections_frame[OF this] obtain lines' where
    r: "dedent_sections ?lines (find_code_blocks ?lines) = Inr lines'"
    and len: "length lines' = length ?lines"
    and fr: "\<forall>j < length ?lines. (\<forall>sec \<in> set (find_code_blocks ?lines). \<not> (fst sec < j \<and> j < snd sec))
             \<longrightarrow> lines' ! j = ?lines ! j"
    and su: "\<forall>j < length ?lines. suffix (lines' ! j) (?lines ! j)"
    by blast
  have ne: "lines' \<noteq> []" using len split_nl_nonempty[of s] by auto
  have "\<forall>l \<in> set lines'. NL \<notin> set l"
  proof
    fix l assume "l \<in> set lines'"
    then obtain j where j: "j < length lines'" "l = lines' ! j" by (auto simp: in_set_conv_nth)
    then have "suffix l (?lines ! j)" using su len by simp
    moreover have "NL \<notin> set (?lines ! j)" using j len split_nl_no_newline[of "?lines ! j" s] by simp
    ultimately show "NL \<notin> set l" using set_mono_suffix by blast
  qed
  then have "split_nl (join_nl lines') = lines'" using ne by (simp add: split_join_nl)
  moreover have "dedent_code s = Inr (join_nl lines')" using r by (simp add: dedent_code_def)
  ultimately show ?thesis using r len fr su by blast
qed

lemma pair_up_no_marker_inside:
  "sorted_wrt (<) ms \<Longrightarrow> (c, d) \<in> set (pair_up ms) \<Longrightarrow> m \<in> set ms \<Longrightarrow> \<not> (c < m \<and> m < d)"
proof (induction ms rule: pair_up.induct)
  case (1 x y rest)
  show ?case
  proof (cases "(c, d) = (x, y)")
    case True
    then show ?thesis using 1(2) 1(4) by auto
  next
    case False
    then have cd: "(c, d) \<in> set (pair_up rest)" using 1(3) by auto
    then have "c \<in> set rest" using pair_up_set by blast
    then have "x < c" "y < c" using 1(2) by auto
    then show ?thesis using 1 cd by auto
  qed
qed auto

lemma fence_line_outside_bodies:
  assumes "j < length lines" and "str_contains fence (lines ! j)"
    and "sec \<in> set (find_code_blocks lines)"
  shows "\<not> (fst sec < j \<and> j < snd sec)"
proof -
  have "j \<in> set (marker_indices lines)" using assms(1,2) by (simp add: marker_indices_def)
  moreover have "(fst sec, snd sec) \<in> set (pair_up (marker_indices lines))"
    using assms(3) by (simp add: find_code_blocks_pair_up)
  ultimately show ?thesis
    using pair_up_no_marker_inside[OF sorted_marker_indices] by blast
qed

lemma find_code_blocks_fences:
  assumes "(a, b) \<in> set (find_code_blocks lines)"
  shows "a < length lines \<and> b < length lines \<and> str_contains fence (lines ! a) \<and> str_contains fence (lines ! b)"
  using pair_up_set[of a b "marker_indices lines"] assms
  by (simp add: find_code_blocks_pair_up marker_indices_def)

section \<open>The examples of the specification\<close>

text \<open>
  A fence indented by four columns with a body indented by eight: the body moves to the
  fence column.  A block that is already aligned stays as it is.
\<close>

lemma example_1:
  "dedent_code (py ''    ```\<newline>        code1\<newline>        code2\<newline>    ```'')
     = Inr (py ''    ```\<newline>    code1\<newline>    code2\<newline>    ```'')"
  by code_simp

lemma example_3: "dedent_code (py ''```\<newline>code\<newline>```'') = Inr (py ''```\<newline>code\<newline>```'')"
  by code_simp

section \<open>Properties of \<open>dedent_code\<close>\<close>

text \<open>
  Claim C4.  \<open>dedent_code\<close> preserves the line count: for every input \<open>s\<close> it returns a
  string, and splitting that string at the newlines gives as many lines as splitting \<open>s\<close>.
\<close>

theorem dedent_code_line_count:
  "\<exists>t. dedent_code s = Inr t \<and> length (split_nl t) = length (split_nl s)"
  using dedent_code_lines[of s] by auto

theorem dedent_code_line_count_witness:
  "length (split_nl (py ''    ```\<newline>        code1\<newline>        code2\<newline>    ```'')) = 4
   \<and> (\<exists>t. dedent_code (py ''    ```\<newline>        code1\<newline>        code2\<newline>    ```'') = Inr t
          \<and> length (split_nl t) = 4)"
proof -
  have n: "length (split_nl (py ''    ```\<newline>        code1\<newline>        code2\<newline>    ```'')) = 4"
    by code_simp
  show ?thesis
    using n dedent_code_line_count[of "py ''    ```\<newline>        code1\<newline>        code2\<newline>    ```''"]
    by simp
qed

text \<open>
  Claim C5.  For every input, the lines of the result at the two fence indices of every
  recognised span equal the lines of the input there; every line that is not strictly
  inside a span is unchanged; and each line of the result is a suffix of the line of the
  input at the same index, so that only leading characters are ever altered.
\<close>

theorem dedent_code_frame:
  "\<exists>t. dedent_code s = Inr t
     \<and> length (split_nl t) = length (split_nl s)
     \<and> (\<forall>start end. (start, end) \<in> set (find_code_blocks (split_nl s)) \<longrightarrow>
           split_nl t ! start = split_nl s ! start \<and> split_nl t ! end = split_nl s ! end)
     \<and> (\<forall>j < length (split_nl s).
           (\<forall>start end. (start, end) \<in> set (find_code_blocks (split_nl s)) \<longrightarrow> \<not> (start < j \<and> j < end))
             \<longrightarrow> split_nl t ! j = split_nl s ! j)
     \<and> (\<forall>j < length (split_nl s). suffix (split_nl t ! j) (split_nl s ! j))"
proof -
  let ?lines = "split_nl s"
  from dedent_code_lines[of s] obtain lines' where
    r: "dedent_code s = Inr (join_nl lines')" and sj: "split_nl (join_nl lines') = lines'"
    and len: "length lines' = length ?lines"
    and fr: "\<forall>j < length ?lines. (\<forall>sec \<in> set (find_code_blocks ?lines). \<not> (fst sec < j \<and> j < snd sec))
             \<longrightarrow> lines' ! j = ?lines ! j"
    and su: "\<forall>j < length ?lines. suffix (lines' ! j) (?lines ! j)"
    by blast
  have fences: "lines' ! a = ?lines ! a \<and> lines' ! b = ?lines ! b"
    if ab: "(a, b) \<in> set (find_code_blocks ?lines)" for a b
  proof -
    note f = find_code_blocks_fences[OF ab]
    have "\<forall>sec \<in> set (find_code_blocks ?lines). \<not> (fst sec < a \<and> a < snd sec)"
      using fence_line_outside_bodies[of a ?lines] f by blast
    moreover have "\<forall>sec \<in> set (find_code_blocks ?lines). \<not> (fst sec < b \<and> b < snd sec)"
      using fence_line_outside_bodies[of b ?lines] f by blast
    ultimately show ?thesis using fr f by blast
  qed
  have outside: "lines' ! j = ?lines ! j"
    if "j < length ?lines"
      and "\<forall>start end. (start, end) \<in> set (find_code_blocks ?lines) \<longrightarrow> \<not> (start < j \<and> j < end)" for j
  proof -
    have "\<forall>sec \<in> set (find_code_blocks ?lines). \<not> (fst sec < j \<and> j < snd sec)"
      using that(2) by (metis prod.collapse)
    then show ?thesis using fr that(1) by blast
  qed
  show ?thesis
    using r sj len fences outside su by auto
qed

theorem dedent_code_frame_witness:
  "(0, 3) \<in> set (find_code_blocks (split_nl (py ''    ```\<newline>        code1\<newline>        code2\<newline>    ```'')))
   \<and> (\<exists>t. dedent_code (py ''    ```\<newline>        code1\<newline>        code2\<newline>    ```'') = Inr t
          \<and> split_nl t ! 0 = py ''    ```'' \<and> split_nl t ! 3 = py ''    ```'')"
proof -
  let ?s = "py ''    ```\<newline>        code1\<newline>        code2\<newline>    ```''"
  have h: "(0, 3) \<in> set (find_code_blocks (split_nl ?s))" by code_simp
  have l0: "split_nl ?s ! 0 = py ''    ```''" by code_simp
  have l3: "split_nl ?s ! 3 = py ''    ```''" by code_simp
  from dedent_code_frame[of ?s] obtain t where
    "dedent_code ?s = Inr t"
    "\<forall>start end. (start, end) \<in> set (find_code_blocks (split_nl ?s)) \<longrightarrow>
           split_nl t ! start = split_nl ?s ! start \<and> split_nl t ! end = split_nl ?s ! end"
    by blast
  with h l0 l3 show ?thesis by metis
qed

text \<open>
  Claim C6.  The spans are the marker indices paired by alternation in document order.
  When the number of markers is odd, every span ends before the last marker and all lines
  from that marker onward are unchanged; an input with a single marker is returned as it is.
\<close>

theorem fence_pairing:
  "find_code_blocks lines = pair_up (marker_indices lines)
   \<and> (odd (length (marker_indices (split_nl s))) \<longrightarrow>
        (\<forall>start end. (start, end) \<in> set (find_code_blocks (split_nl s)) \<longrightarrow>
            end < last (marker_indices (split_nl s)))
        \<and> (\<exists>t. dedent_code s = Inr t
             \<and> (\<forall>j. last (marker_indices (split_nl s)) \<le> j \<and> j < length (split_nl s) \<longrightarrow>
                   split_nl t ! j = split_nl s ! j)))
   \<and> (length (marker_indices (split_nl s)) = 1 \<longrightarrow> dedent_code s = Inr s)"
proof (intro conjI impI)
  show "find_code_blocks lines = pair_up (marker_indices lines)"
    by (rule find_code_blocks_pair_up)
next
  let ?lines = "split_nl s"
  let ?ms = "marker_indices ?lines"
  assume odd: "odd (length ?ms)"
  show before: "\<forall>start end. (start, end) \<in> set (find_code_blocks ?lines) \<longrightarrow> end < last ?ms"
    using pair_up_before_last[OF sorted_marker_indices odd]
    by (simp add: find_code_blocks_pair_up)
  from dedent_code_lines[of s] obtain lines' where
    r: "dedent_code s = Inr (join_nl lines')" and sj: "split_nl (join_nl lines') = lines'"
    and fr: "\<forall>j < length ?lines. (\<forall>sec \<in> set (find_code_blocks ?lines). \<not> (fst sec < j \<and> j < snd sec))
             \<longrightarrow> lines' ! j = ?lines ! j"
    by blast
  have "lines' ! j = ?lines ! j" if "last ?ms \<le> j" "j < length ?lines" for j
  proof -
    have "\<forall>sec \<in> set (find_code_blocks ?lines). \<not> (fst sec < j \<and> j < snd sec)"
    proof
      fix sec assume "sec \<in> set (find_code_blocks ?lines)"
      then have "snd sec < last ?ms" using before by (metis prod.collapse)
      then show "\<not> (fst sec < j \<and> j < snd sec)" using that(1) by simp
    qed
    then show ?thesis using fr that(2) by blast
  qed
  then show "\<exists>t. dedent_code s = Inr t
       \<and> (\<forall>j. last ?ms \<le> j \<and> j < length ?lines \<longrightarrow> split_nl t ! j = ?lines ! j)"
    using r sj by auto
next
  assume "length (marker_indices (split_nl s)) = 1"
  then obtain m where "marker_indices (split_nl s) = [m]"
    by (cases "marker_indices (split_nl s)") auto
  then have "find_code_blocks (split_nl s) = []" by (simp add: find_code_blocks_pair_up)
  then show "dedent_code s = Inr s" by (simp add: dedent_code_def join_split_nl)
qed

theorem fence_pairing_witness:
  "odd (length (marker_indices (split_nl (py ''```\<newline>x\<newline>```\<newline>  ```\<newline>y''))))
   \<and> last (marker_indices (split_nl (py ''```\<newline>x\<newline>```\<newline>  ```\<newline>y''))) = 3
   \<and> (\<exists>t. dedent_code (py ''```\<newline>x\<newline>```\<newline>  ```\<newline>y'') = Inr t
          \<and> split_nl t ! 3 = py ''  ```'' \<and> split_nl t ! 4 = py ''y'')
   \<and> length (marker_indices (split_nl (py ''```\<newline>a\<newline>b''))) = 1
   \<and> dedent_code (py ''```\<newline>a\<newline>b'') = Inr (py ''```\<newline>a\<newline>b'')"
proof -
  let ?s = "py ''```\<newline>x\<newline>```\<newline>  ```\<newline>y''"
  let ?u = "py ''```\<newline>a\<newline>b''"
  have ms: "marker_indices (split_nl ?s) = [0, 2, 3]" by code_simp
  have len: "length (split_nl ?s) = 5" by code_simp
  have l3: "split_nl ?s ! 3 = py ''  ```''" by code_simp
  have l4: "split_nl ?s ! 4 = py ''y''" by code_simp
  have one: "length (marker_indices (split_nl ?u)) = 1" by code_simp
  have odd: "odd (length (marker_indices (split_nl ?s)))" using ms by simp
  have lst: "last (marker_indices (split_nl ?s)) = 3" using ms by simp
  from fence_pairing[of "[]" ?s] odd obtain t where
    t: "dedent_code ?s = Inr t"
    "\<forall>j. last (marker_indices (split_nl ?s)) \<le> j \<and> j < length (split_nl ?s) \<longrightarrow>
          split_nl t ! j = split_nl ?s ! j"
    by blast
  have "split_nl t ! 3 = py ''  ```''" "split_nl t ! 4 = py ''y''"
    using t(2) lst len l3 l4 by simp_all
  moreover have "dedent_code ?u = Inr ?u" using fence_pairing[of "[]" ?u] one by blast
  ultimately show ?thesis using odd lst t(1) one by blast
qed

text \<open>
  Claim C7.  An input that does not contain the three-backtick substring is returned
  unchanged.
\<close>

theorem dedent_code_fenceless:
  assumes "\<not> str_contains fence s"
  shows "dedent_code s = Inr s"
proof -
  have "marker_indices (split_nl s) = []"
    using split_nl_no_fence[OF assms] by (auto simp: marker_indices_def filter_empty_conv)
  then have "find_code_blocks (split_nl s) = []" by (simp add: find_code_blocks_pair_up)
  then show ?thesis by (simp add: dedent_code_def join_split_nl)
qed

theorem dedent_code_fenceless_witness:
  "\<not> str_contains fence (py ''no code here\<newline>just text'')
   \<and> dedent_code (py ''no code here\<newline>just text'') = Inr (py ''no code here\<newline>just text'')"
proof -
  have h: "\<not> str_contains fence (py ''no code here\<newline>just text'')"
    by code_simp
  show ?thesis using h dedent_code_fenceless[OF h] by (intro conjI)
qed

text \<open>
  Claim C8.  \<open>dedent_code\<close> is total: every function of the model is defined by structural
  recursion, hence terminates, and for every input, the empty string, unbalanced fences and
  spans without a body line included, no index is out of range and a string is returned.
\<close>

theorem dedent_code_total: "\<exists>t. dedent_code s = Inr t"
  using dedent_code_lines[of s] by blast

theorem dedent_code_total_witness:
  "(\<exists>t. dedent_code [] = Inr t) \<and> (\<exists>t. dedent_code (py ''```\<newline>```'') = Inr t)
   \<and> (\<exists>t. dedent_code (py ''```\<newline>a\<newline>b'') = Inr t)"
  using dedent_code_total[of "[]"] dedent_code_total[of "py ''```\<newline>```''"]
    dedent_code_total[of "py ''```\<newline>a\<newline>b''"]
  by (intro conjI)

section \<open>The dedent amount\<close>

lemma indent_takeWhile: "indent l = int (length (takeWhile py_isspace l))"
proof -
  have "length (takeWhile py_isspace l) + length (dropWhile py_isspace l) = length l"
    by (metis length_append takeWhile_dropWhile_id)
  then show ?thesis by (simp add: indent_def lstrip_def)
qed

lemma indent_bounds: "0 \<le> indent l \<and> indent l \<le> int (length l)"
  by (simp add: indent_takeWhile length_takeWhile_le)

lemma line_start_loop_Min:
  "\<forall>i \<in> set rng. i < length lines \<Longrightarrow>
   line_start_loop lines rng ls = Inr (Min (insert ls (set (map (\<lambda>i. indent (lines ! i)) rng))))"
proof (induction rng arbitrary: ls)
  case Nil
  show ?case by simp
next
  case (Cons i rng)
  let ?S = "set (map (\<lambda>i. indent (lines ! i)) rng)"
  have "Min (insert (min ls (indent (lines ! i))) ?S) = Min (insert ls (insert (indent (lines ! i)) ?S))"
    by (cases "?S = {}") (simp_all add: min.assoc)
  then show ?case using Cons by (simp add: list_get_def)
qed

lemma dedent_chars_Min:
  assumes "Suc start < end" and "end \<le> length lines"
    and "\<forall>i \<in> set [Suc start ..< end]. int (length (lines ! i)) \<le> sys_maxsize"
  shows "dedent_chars lines start end =
           Inr (Min (set (map (\<lambda>i. indent (lines ! i)) [Suc start ..< end]))
                - str_find fence (lines ! start))"
proof -
  let ?rng = "[Suc start ..< end]"
  let ?S = "set (map (\<lambda>i. indent (lines ! i)) ?rng)"
  have ne: "?S \<noteq> {}" using assms(1) by simp
  have fin: "finite ?S" by simp
  have "\<forall>i \<in> set ?rng. i < length lines" using assms(2) by simp
  then have loop: "line_start_loop lines ?rng sys_maxsize = Inr (Min (insert sys_maxsize ?S))"
    by (rule line_start_loop_Min)
  have le: "\<forall>x \<in> ?S. x \<le> sys_maxsize"
  proof
    fix x assume "x \<in> ?S"
    then obtain i where i: "i \<in> set ?rng" "x = indent (lines ! i)" by auto
    have "indent (lines ! i) \<le> int (length (lines ! i))" using indent_bounds by blast
    also have "\<dots> \<le> sys_maxsize" using assms(3) i(1) by blast
    finally show "x \<le> sys_maxsize" using i(2) by simp
  qed
  have ge: "\<forall>x \<in> ?S. 0 \<le> x" using indent_bounds by auto
  have "Min ?S \<le> sys_maxsize" using le ne fin Min_in by blast
  then have m1: "Min (insert sys_maxsize ?S) = Min ?S" using ne fin by (simp add: min_absorb2)
  have "0 \<le> Min ?S" using ge ne fin Min_in by blast
  then have m2: "max (Min ?S) 0 = Min ?S" by simp
  have st: "start < length lines" using assms(1,2) by simp
  show ?thesis
    using st loop m1 m2 by (simp add: dedent_chars_def list_get_def)
qed

text \<open>
  Claim C3, as amended.  For a span with at least one body line, whose body lines are no
  longer than \<open>sys.maxsize\<close> (as every Python string is), the dedent amount is the
  minimum, over the lines strictly between the two fence lines, of the length of the
  line's leading run of whitespace characters (the characters that \<open>lstrip\<close> removes:
  spaces, tabs and the other code points of \<open>str.isspace\<close>), minus the fence column.
\<close>

theorem dedent_chars_min_body_indent:
  assumes "Suc start < end" and "end \<le> length lines"
    and "\<forall>i \<in> set [Suc start ..< end]. int (length (lines ! i)) \<le> sys_maxsize"
  shows "dedent_chars lines start end =
           Inr (Min (set (map (\<lambda>i. int (length (takeWhile py_isspace (lines ! i)))) [Suc start ..< end]))
                - str_find fence (lines ! start))"
proof -
  have "map (\<lambda>i. indent (lines ! i)) [Suc start ..< end]
      = map (\<lambda>i. int (length (takeWhile py_isspace (lines ! i)))) [Suc start ..< end]"
    by (simp add: indent_takeWhile)
  then show ?thesis using dedent_chars_Min[OF assms] by simp
qed

theorem dedent_chars_min_body_indent_witness:
  "dedent_chars [py ''    ```'', py ''        code1'', py ''         code2'', py ''    ```''] 0 3 = Inr 4
   \<and> dedent_chars [py ''```'', 9 # py ''x'', py ''```''] 0 2 = Inr 1"
proof -
  let ?L = "[py ''    ```'', py ''        code1'', py ''         code2'', py ''    ```'']"
  let ?T = "[py ''```'', 9 # py ''x'', py ''```'']"
  have a: "Suc 0 < 3" "3 \<le> length ?L"
    "\<forall>i \<in> set [Suc 0 ..< 3]. int (length (?L ! i)) \<le> sys_maxsize"
    by code_simp+
  have b: "Suc 0 < 2" "2 \<le> length ?T"
    "\<forall>i \<in> set [Suc 0 ..< 2]. int (length (?T ! i)) \<le> sys_maxsize"
    by code_simp+
  have va: "Min (set (map (\<lambda>i. int (length (takeWhile py_isspace (?L ! i)))) [Suc 0 ..< 3]))
                - str_find fence (?L ! 0) = 4"
    by code_simp
  have vb: "Min (set (map (\<lambda>i. int (length (takeWhile py_isspace (?T ! i)))) [Suc 0 ..< 2]))
                - str_find fence (?T ! 0) = 1"
    by code_simp
  show ?thesis
    using dedent_chars_min_body_indent[OF a] dedent_chars_min_body_indent[OF b] va vb
    by simp
qed

text \<open>
  Claim C3 as stated counts leading space characters only.  A body line that begins with
  a horizontal tab (code point 9) has no leading space, yet \<open>lstrip\<close> removes the tab:
  the code computes the dedent amount 1 where the count of spaces gives 0, and it strips
  the tab from the line.
\<close>

theorem leading_spaces_counterexample:
  "dedent_chars [py ''```'', 9 # py ''x'', py ''```''] 0 2 = Inr 1
   \<and> spec_dedent_chars [py ''```'', 9 # py ''x'', py ''```''] 0 2 = 0
   \<and> dedent_code (join_nl [py ''```'', 9 # py ''x'', py ''```'']) = Inr (join_nl [py ''```'', py ''x'', py ''```''])"
  by code_simp

section \<open>A second pass when no dedent amount is negative\<close>

text \<open>
  Removing \<open>d\<close> leading whitespace characters, with \<open>0 \<le> d\<close> at most the indent of
  the line, lowers the indent by \<open>d\<close>; the fence column of a marker line is not negative.
\<close>

lemma slice_from_drop: "0 \<le> d \<Longrightarrow> d \<le> int (length l) \<Longrightarrow> slice_from l d = drop (nat d) l"
  by (simp add: slice_from_def Let_def min_absorb1)

lemma length_takeWhile_drop:
  "n \<le> length (takeWhile P xs) \<Longrightarrow> length (takeWhile P (drop n xs)) = length (takeWhile P xs) - n"
proof (induction xs arbitrary: n)
  case Nil
  then show ?case by simp
next
  case (Cons x xs)
  then show ?case by (cases n) (auto split: if_splits)
qed

lemma indent_drop:
  assumes "0 \<le> d" and "d \<le> indent l"
  shows "indent (drop (nat d) l) = indent l - d"
proof -
  have "nat d \<le> length (takeWhile py_isspace l)" using assms by (simp add: indent_takeWhile)
  from length_takeWhile_drop[OF this] show ?thesis
    using assms by (simp add: indent_takeWhile)
qed

lemma str_find_from_nonneg: "str_contains sub s \<Longrightarrow> 0 \<le> str_find_from sub s i"
  by (induction s arbitrary: i) auto

lemma str_find_nonneg: "str_contains sub s \<Longrightarrow> 0 \<le> str_find sub s"
  by (simp add: str_find_def str_find_from_nonneg)

lemma line_start_loop_cong:
  "length L = length L' \<Longrightarrow> \<forall>i \<in> set rng. L ! i = L' ! i \<Longrightarrow>
   line_start_loop L rng ls = line_start_loop L' rng ls"
  by (induction rng arbitrary: ls) (auto simp: list_get_def)

lemma dedent_chars_cong:
  assumes "length L = length L'" and "a < b" and "\<forall>j. a \<le> j \<and> j < b \<longrightarrow> L ! j = L' ! j"
  shows "dedent_chars L a b = dedent_chars L' a b"
proof -
  have "line_start_loop L [Suc a ..< b] sys_maxsize = line_start_loop L' [Suc a ..< b] sys_maxsize"
    using assms by (intro line_start_loop_cong) auto
  moreover have "L ! a = L' ! a" using assms(2,3) by simp
  ultimately show ?thesis using assms(1) by (simp add: dedent_chars_def list_get_def)
qed

lemma slice_loop_exact:
  "distinct rng \<Longrightarrow> \<forall>i \<in> set rng. i < length lines \<Longrightarrow>
   \<exists>lines'. slice_loop lines rng d = Inr lines' \<and> length lines' = length lines
     \<and> (\<forall>j < length lines. lines' ! j = (if j \<in> set rng then slice_from (lines ! j) d else lines ! j))"
proof (induction rng arbitrary: lines)
  case Nil
  then show ?case by simp
next
  case (Cons i rng)
  let ?upd = "lines[i := slice_from (lines ! i) d]"
  have i: "i < length lines" "i \<notin> set rng" "distinct rng" using Cons.prems by simp_all
  have "\<forall>k \<in> set rng. k < length ?upd" using Cons.prems by simp
  from Cons.IH[OF i(3) this] obtain lines' where
    r: "slice_loop ?upd rng d = Inr lines'" and len: "length lines' = length ?upd"
    and ex: "\<forall>j < length ?upd. lines' ! j = (if j \<in> set rng then slice_from (?upd ! j) d else ?upd ! j)"
    by blast
  have "slice_loop lines (i # rng) d = Inr lines'" using i(1) r by (simp add: list_get_def)
  moreover have "length lines' = length lines" using len by simp
  moreover have "\<forall>j < length lines.
      lines' ! j = (if j \<in> set (i # rng) then slice_from (lines ! j) d else lines ! j)"
    using ex i(1,2) by (auto simp: nth_list_update)
  ultimately show ?case by blast
qed

lemma block_settles:
  assumes body: "Suc a < b" and b: "b \<le> length L"
    and len: "\<forall>i \<in> set [Suc a ..< b]. int (length (L ! i)) \<le> sys_maxsize"
    and fence: "str_contains fence (L ! a)"
    and d: "dedent_chars L a b = Inr d" and nonneg: "0 \<le> d"
    and run: "dedent_code_block L a b = Inr L'"
  shows "dedent_chars L' a b = Inr 0"
proof (cases "d = 0")
  case True
  then show ?thesis using d run by (simp add: dedent_code_block_def)
next
  case False
  let ?rng = "[Suc a ..< b]"
  let ?S = "set (map (\<lambda>i. indent (L ! i)) ?rng)"
  let ?fs = "str_find fence (L ! a)"
  have dval: "d = Min ?S - ?fs" using dedent_chars_Min[OF body b len] d by simp
  have fs: "0 \<le> ?fs" using fence by (rule str_find_nonneg)
  have ne: "?S \<noteq> {}" and fin: "finite ?S" using body by simp_all
  have dle: "d \<le> indent (L ! i)" if "i \<in> set ?rng" for i
  proof -
    have "Min ?S \<le> indent (L ! i)" using that fin by (intro Min_le) auto
    then show ?thesis using dval fs by simp
  qed
  have "\<forall>i \<in> set ?rng. i < length L" using b by simp
  from slice_loop_exact[OF _ this, of d] obtain L2 where
    r2: "slice_loop L ?rng d = Inr L2" and len2: "length L2 = length L"
    and ex: "\<forall>j < length L. L2 ! j = (if j \<in> set ?rng then slice_from (L ! j) d else L ! j)"
    by auto
  have L': "L' = L2" using run d False r2 by (simp add: dedent_code_block_def)
  have la: "L' ! a = L ! a" using ex L' body b by simp
  have body_lines: "L' ! i = drop (nat d) (L ! i)" if "i \<in> set ?rng" for i
  proof -
    have "d \<le> int (length (L ! i))" using dle[OF that] indent_bounds[of "L ! i"] by linarith
    then show ?thesis using ex L' that b nonneg by (simp add: slice_from_drop)
  qed
  have ind: "indent (L' ! i) = indent (L ! i) - d" if "i \<in> set ?rng" for i
    using body_lines[OF that] indent_drop[OF nonneg dle[OF that]] by simp
  have len': "\<forall>i \<in> set ?rng. int (length (L' ! i)) \<le> sys_maxsize"
    using len body_lines by fastforce
  have b': "b \<le> length L'" using b len2 L' by simp
  have S': "set (map (\<lambda>i. indent (L' ! i)) ?rng) = (\<lambda>x. x - d) ` ?S"
    using ind by (auto simp: image_iff)
  have "mono (\<lambda>x::int. x - d)" by (simp add: mono_def)
  from mono_Min_commute[OF this fin ne] have "Min ((\<lambda>x. x - d) ` ?S) = Min ?S - d" by simp
  then have "Min (set (map (\<lambda>i. indent (L' ! i)) ?rng)) = ?fs" using S' dval by simp
  then show ?thesis using dedent_chars_Min[OF body b' len'] la by simp
qed

text \<open>
  The spans are separated, so a span is processed on lines that no other span has
  changed, and once processed it stays as it is: its dedent amount has become 0.
\<close>

lemma pair_up_separated:
  "sorted_wrt (<) ms \<Longrightarrow> sorted_wrt (\<lambda>s t. snd s < fst t) (pair_up ms)"
proof (induction ms rule: pair_up.induct)
  case (1 a b rest)
  have "b < fst t" if "t \<in> set (pair_up rest)" for t
  proof -
    have "fst t \<in> set rest" using that pair_up_set[of "fst t" "snd t" rest] by simp
    then show ?thesis using 1(2) by auto
  qed
  then show ?case using 1 by auto
qed auto

lemma dedent_sections_settles:
  assumes "sorted_wrt (\<lambda>s t. snd s < fst t) secs"
    and "\<forall>sec \<in> set secs. fst sec < snd sec \<and> snd sec \<le> length L
           \<and> str_contains fence (L ! fst sec)
           \<and> (\<exists>d. 0 \<le> d \<and> dedent_chars L (fst sec) (snd sec) = Inr d)"
    and "\<forall>l \<in> set L. int (length l) \<le> sys_maxsize"
    and "dedent_sections L secs = Inr L'"
  shows "\<forall>sec \<in> set secs. dedent_chars L' (fst sec) (snd sec) = Inr 0 \<or> snd sec \<le> Suc (fst sec)"
  using assms
proof (induction secs arbitrary: L)
  case Nil
  then show ?case by simp
next
  case (Cons sec rest)
  let ?a = "fst sec" and ?b = "snd sec"
  have ab: "?a < ?b" "?b \<le> length L" and fence: "str_contains fence (L ! ?a)"
    using Cons.prems(2) by simp_all
  obtain d where d: "0 \<le> d" "dedent_chars L ?a ?b = Inr d" using Cons.prems(2) by auto
  have a: "?a < length L" using ab by simp
  from dedent_code_block_frame[OF a ab(2)] obtain L1 where
    b1: "dedent_code_block L ?a ?b = Inr L1" and len1: "length L1 = length L"
    and fr1: "\<forall>j < length L. \<not> (?a < j \<and> j < ?b) \<longrightarrow> L1 ! j = L ! j"
    and su1: "\<forall>j < length L. suffix (L1 ! j) (L ! j)"
    by blast
  have rest_run: "dedent_sections L1 rest = Inr L'" using Cons.prems(4) b1 by simp
  have sep: "\<forall>t \<in> set rest. ?b < fst t" and sorted_rest: "sorted_wrt (\<lambda>s t. snd s < fst t) rest"
    using Cons.prems(1) by simp_all
  have rest_ok: "\<forall>t \<in> set rest. fst t < snd t \<and> snd t \<le> length L1
           \<and> str_contains fence (L1 ! fst t)
           \<and> (\<exists>d. 0 \<le> d \<and> dedent_chars L1 (fst t) (snd t) = Inr d)"
  proof
    fix t assume t: "t \<in> set rest"
    then have t_ok: "fst t < snd t" "snd t \<le> length L" "str_contains fence (L ! fst t)"
      "\<exists>d. 0 \<le> d \<and> dedent_chars L (fst t) (snd t) = Inr d"
      using Cons.prems(2) by simp_all
    have bt: "?b < fst t" using sep t by blast
    have same: "\<forall>j. fst t \<le> j \<and> j < snd t \<longrightarrow> L1 ! j = L ! j"
      using fr1 bt t_ok(2) by simp
    have "dedent_chars L1 (fst t) (snd t) = dedent_chars L (fst t) (snd t)"
      using len1 t_ok(1) same by (intro dedent_chars_cong) auto
    moreover have "L1 ! fst t = L ! fst t" using same t_ok(1) by simp
    ultimately show "fst t < snd t \<and> snd t \<le> length L1
           \<and> str_contains fence (L1 ! fst t)
           \<and> (\<exists>d. 0 \<le> d \<and> dedent_chars L1 (fst t) (snd t) = Inr d)"
      using t_ok len1 by simp
  qed
  have len_ok: "\<forall>l \<in> set L1. int (length l) \<le> sys_maxsize"
  proof
    fix l assume "l \<in> set L1"
    then obtain j where j: "j < length L1" "l = L1 ! j" by (auto simp: in_set_conv_nth)
    then have "length l \<le> length (L ! j)" using su1 len1 by (simp add: suffix_length_le)
    moreover have "int (length (L ! j)) \<le> sys_maxsize" using Cons.prems(3) j(1) len1 by simp
    ultimately show "int (length l) \<le> sys_maxsize" by linarith
  qed
  from Cons.IH[OF sorted_rest rest_ok len_ok rest_run]
  have rest_settled: "\<forall>t \<in> set rest. dedent_chars L' (fst t) (snd t) = Inr 0 \<or> snd t \<le> Suc (fst t)" .
  have sec_settled: "dedent_chars L' ?a ?b = Inr 0 \<or> ?b \<le> Suc ?a"
  proof (cases "Suc ?a < ?b")
    case False
    then show ?thesis by simp
  next
    case True
    have "\<forall>i \<in> set [Suc ?a ..< ?b]. int (length (L ! i)) \<le> sys_maxsize"
      using Cons.prems(3) ab(2) by simp
    from block_settles[OF True ab(2) this fence d(2) d(1) b1]
    have s1: "dedent_chars L1 ?a ?b = Inr 0" .
    have "\<forall>t \<in> set rest. fst t < length L1 \<and> snd t \<le> length L1" using rest_ok by auto
    from dedent_sections_frame[OF this] rest_run
    have len': "length L' = length L1"
      and fr': "\<forall>j < length L1. (\<forall>t \<in> set rest. \<not> (fst t < j \<and> j < snd t)) \<longrightarrow> L' ! j = L1 ! j"
      by auto
    have "\<forall>j. ?a \<le> j \<and> j < ?b \<longrightarrow> L' ! j = L1 ! j"
    proof (intro allI impI)
      fix j assume j: "?a \<le> j \<and> j < ?b"
      then have "\<forall>t \<in> set rest. \<not> (fst t < j \<and> j < snd t)" using sep by fastforce
      moreover have "j < length L1" using j ab(2) len1 by simp
      ultimately show "L' ! j = L1 ! j" using fr' by blast
    qed
    then have "dedent_chars L' ?a ?b = dedent_chars L1 ?a ?b"
      using len' ab(1) by (intro dedent_chars_cong) auto
    then show ?thesis using s1 by simp
  qed
  show ?case using sec_settled rest_settled by simp
qed

lemma dedent_sections_settled:
  "\<forall>sec \<in> set secs. fst sec < length L
      \<and> (dedent_chars L (fst sec) (snd sec) = Inr 0 \<or> snd sec \<le> Suc (fst sec)) \<Longrightarrow>
   dedent_sections L secs = Inr L"
proof (induction secs)
  case Nil
  show ?case by simp
next
  case (Cons sec rest)
  have a: "fst sec < length L" using Cons.prems by simp
  have "dedent_code_block L (fst sec) (snd sec) = Inr L"
  proof (cases "dedent_chars L (fst sec) (snd sec) = Inr 0")
    case True
    then show ?thesis by (simp add: dedent_code_block_def)
  next
    case False
    then have "snd sec \<le> Suc (fst sec)" using Cons.prems by auto
    then have e: "[Suc (fst sec) ..< snd sec] = []" by simp
    show ?thesis
      unfolding dedent_code_block_def dedent_chars_def e
      using a by (simp add: list_get_def Let_def)
  qed
  then show ?case using Cons by simp
qed

text \<open>
  When no span of the input has a negative dedent amount, a second pass of
  \<open>dedent_code\<close> changes nothing.
\<close>

lemma dedent_code_idempotent_nonneg:
  assumes len: "int (length s) \<le> sys_maxsize"
    and nonneg: "\<forall>sec \<in> set (find_code_blocks (split_nl s)).
                   \<exists>d. 0 \<le> d \<and> dedent_chars (split_nl s) (fst sec) (snd sec) = Inr d"
    and run: "dedent_code s = Inr t"
  shows "dedent_code t = Inr t"
proof -
  let ?L = "split_nl s"
  let ?secs = "find_code_blocks ?L"
  from dedent_code_lines[of s] run obtain L' where
    r: "dedent_sections ?L ?secs = Inr L'" and t: "t = join_nl L'"
    and sj: "split_nl (join_nl L') = L'" and len': "length L' = length ?L"
    and fr: "\<forall>j < length ?L. (\<forall>sec \<in> set ?secs. \<not> (fst sec < j \<and> j < snd sec)) \<longrightarrow> L' ! j = ?L ! j"
    and su: "\<forall>j < length ?L. suffix (L' ! j) (?L ! j)"
    by auto
  have sep: "sorted_wrt (\<lambda>s t. snd s < fst t) ?secs"
    using pair_up_separated[OF sorted_marker_indices] by (simp add: find_code_blocks_pair_up)
  have ok: "\<forall>sec \<in> set ?secs. fst sec < snd sec \<and> snd sec \<le> length ?L
           \<and> str_contains fence (?L ! fst sec)
           \<and> (\<exists>d. 0 \<le> d \<and> dedent_chars ?L (fst sec) (snd sec) = Inr d)"
  proof
    fix sec assume sec: "sec \<in> set ?secs"
    then have "(fst sec, snd sec) \<in> set ?secs" by simp
    from find_code_blocks_bounds[OF this] find_code_blocks_fences[OF this] nonneg sec
    show "fst sec < snd sec \<and> snd sec \<le> length ?L
           \<and> str_contains fence (?L ! fst sec)
           \<and> (\<exists>d. 0 \<le> d \<and> dedent_chars ?L (fst sec) (snd sec) = Inr d)"
      by simp
  qed
  have lens: "\<forall>l \<in> set ?L. int (length l) \<le> sys_maxsize"
  proof
    fix l assume "l \<in> set ?L"
    then have "length l \<le> length s" using split_nl_sublist sublist_length_le by blast
    then show "int (length l) \<le> sys_maxsize" using len by linarith
  qed
  from dedent_sections_settles[OF sep ok lens r]
  have settled: "\<forall>sec \<in> set ?secs. dedent_chars L' (fst sec) (snd sec) = Inr 0 \<or> snd sec \<le> Suc (fst sec)" .
  have marks: "str_contains fence (L' ! j) = str_contains fence (?L ! j)" if j: "j < length ?L" for j
  proof (cases "\<forall>sec \<in> set ?secs. \<not> (fst sec < j \<and> j < snd sec)")
    case True
    then show ?thesis using fr j by simp
  next
    case False
    then have "\<not> str_contains fence (?L ! j)" using fence_line_outside_bodies[OF j] by blast
    moreover have "sublist (L' ! j) (?L ! j)" using su j by simp
    ultimately show ?thesis
      unfolding str_contains_sublist using sublist_order.order_trans by blast
  qed
  have "marker_indices L' = marker_indices ?L"
    unfolding marker_indices_def len' by (rule filter_cong) (simp_all add: marks)
  then have secs': "find_code_blocks L' = ?secs" by (simp add: find_code_blocks_pair_up)
  have "\<forall>sec \<in> set ?secs. fst sec < length L'
      \<and> (dedent_chars L' (fst sec) (snd sec) = Inr 0 \<or> snd sec \<le> Suc (fst sec))"
    using settled ok len' by auto
  then have "dedent_sections L' ?secs = Inr L'" by (rule dedent_sections_settled)
  then show ?thesis using t sj secs' by (simp add: dedent_code_def)
qed

section \<open>Negative dedent amounts\<close>

text \<open>
  Claim C1 says that a negative dedent amount left-pads each body line with spaces and
  removes no character.  In the code the slice \<open>lines[i][dedent_chars:]\<close> with a negative
  start keeps the last \<open>|dedent_chars|\<close> characters of the line: with the fence at column 4
  and the body line \<open>code1\<close> at column 0 the amount is \<open>-4\<close> and the line becomes
  \<open>ode1\<close>.  An empty line inside a block that is indented with its fence has the same
  effect, since its indent is 0.
\<close>

theorem negative_dedent_keeps_tail:
  "dedent_chars (split_nl (py ''    ```\<newline>code1\<newline>    ```'')) 0 2 = Inr (- 4)
   \<and> dedent_code (py ''    ```\<newline>code1\<newline>    ```'') = Inr (py ''    ```\<newline>ode1\<newline>    ```'')
   \<and> dedent_code (py ''    ```\<newline>        code1\<newline>\<newline>        code2\<newline>    ```'')
       = Inr (py ''    ```\<newline>ode1\<newline>\<newline>ode2\<newline>    ```'')"
  by code_simp

text \<open>
  Claim C2 says that \<open>dedent_code\<close> is idempotent.  The same slice with a negative start
  breaks it: the body line \<open>abcd  ef\<close> under a fence at column 4 is cut to its last four
  characters, two spaces and \<open>ef\<close>, and a second pass, now with the amount \<open>-2\<close>, cuts
  that to \<open>ef\<close>.
\<close>

theorem dedent_code_twice_differs:
  "dedent_code (py ''    ```\<newline>abcd  ef\<newline>    ```'') = Inr (py ''    ```\<newline>  ef\<newline>    ```'')
   \<and> dedent_code (py ''    ```\<newline>  ef\<newline>    ```'') = Inr (py ''    ```\<newline>ef\<newline>    ```'')
   \<and> py ''    ```\<newline>ef\<newline>    ```'' \<noteq> py ''    ```\<newline>  ef\<newline>    ```''"
  by code_simp

section \<open>Properties of \<open>get_request_tab\<close> and \<open>humanize_number\<close>\<close>

text \<open>
  Claim C9.  \<open>get_request_tab\<close> always returns one of \<open>mostviewed\<close>, \<open>unanswered\<close>,
  \<open>latest\<close> and \<open>unresolved\<close>; when the request carries no value for \<open>tab\<close>, or a
  value outside that set, the result is \<open>latest\<close>.
\<close>

theorem get_request_tab_in_tabs:
  "get_request_tab request \<in> tabs
   \<and> (querydict_get (GET request) (py ''tab'') None = None \<longrightarrow> get_request_tab request = py ''latest'')
   \<and> (\<forall>v. querydict_get (GET request) (py ''tab'') None = Some v \<and> v \<notin> tabs \<longrightarrow>
          get_request_tab request = py ''latest'')"
proof -
  have latest: "py ''latest'' \<in> tabs" by (simp add: tabs_def)
  show ?thesis
    using latest
    by (auto simp: get_request_tab_def get_request_param_def querydict_get_def
        split: option.splits if_splits)
qed

theorem get_request_tab_in_tabs_witness:
  "get_request_tab \<lparr>GET = [(py ''tab'', [py ''newest''])]\<rparr> = py ''latest''
   \<and> get_request_tab \<lparr>GET = [(py ''q'', [py ''x''])]\<rparr> = py ''latest''
   \<and> get_request_tab \<lparr>GET = [(py ''tab'', [py ''latest'', py ''unanswered''])]\<rparr> \<in> tabs"
proof -
  let ?r1 = "\<lparr>GET = [(py ''tab'', [py ''newest''])]\<rparr>"
  let ?r2 = "\<lparr>GET = [(py ''q'', [py ''x''])]\<rparr>"
  let ?r3 = "\<lparr>GET = [(py ''tab'', [py ''latest'', py ''unanswered''])]\<rparr>"
  have h1: "querydict_get (GET ?r1) (py ''tab'') None = Some (py ''newest'')"
    by (simp add: querydict_get_def)
  have n1: "py ''newest'' \<notin> tabs" by (simp add: tabs_def py_def)
  have h2: "querydict_get (GET ?r2) (py ''tab'') None = None"
    by (simp add: querydict_get_def py_def)
  show ?thesis
    using get_request_tab_in_tabs[of ?r1] get_request_tab_in_tabs[of ?r2]
      get_request_tab_in_tabs[of ?r3] h1 n1 h2
    by blast
qed

text \<open>
  The float division overflows only far above the thresholds: in the tiers \<open>k\<close> and
  \<open>m\<close> never, and in the tier \<open>B\<close> from the value \<open>1000000000 * float_overflow_bound\<close>
  on (about \<open>1.8e317\<close>).
\<close>

lemma float_overflow_bound_large: "10000 < float_overflow_bound"
  by (simp add: float_overflow_bound_def)

lemma int_le_div_iff:
  fixes a b c :: int
  assumes "0 < c"
  shows "(a \<le> b div c) = (a * c \<le> b)"
proof
  assume "a \<le> b div c"
  then have "a * c \<le> (b div c) * c" using assms by (simp add: mult_right_mono)
  also have "\<dots> \<le> b"
    using assms by (metis mult.commute pos_mod_sign add_increasing2 mult_div_mod_eq order_refl)
  finally show "a * c \<le> b" .
next
  assume "a * c \<le> b"
  then have "(a * c) div c \<le> b div c" using assms by (rule zdiv_mono1)
  then show "a \<le> b div c" using assms by simp
qed

lemma div10_overflows_B:
  assumes "0 \<le> v"
  shows "div10_overflows (v div 100000000) = (1000000000 * float_overflow_bound \<le> v)"
proof -
  have "0 \<le> v div 100000000" using assms by simp
  then have "div10_overflows (v div 100000000) = (10 * float_overflow_bound \<le> v div 100000000)"
    by (simp add: div10_overflows_def)
  also have "\<dots> = (10 * float_overflow_bound * 100000000 \<le> v)"
    by (rule int_le_div_iff) simp
  finally show ?thesis by simp
qed

lemma humanize_number_None: "humanize_number None = Inr (Text [])"
  by (simp add: humanize_number_def)

lemma humanize_number_small: "v \<le> 1000 \<Longrightarrow> humanize_number (Some v) = Inr (Number v)"
  by (simp add: humanize_number_def)

lemma humanize_number_k:
  assumes v: "1000 < v \<and> v \<le> 1000000"
  shows "humanize_number (Some v) = Inr (Formatted (v div 100) (py ''k''))"
proof -
  have "v div 100 \<le> 1000000 div 100" using v by (intro zdiv_mono1) simp_all
  moreover have "0 \<le> v div 100" using v by (simp add: pos_imp_zdiv_nonneg_iff)
  ultimately have "0 \<le> v div 100 \<and> v div 100 \<le> 10000" by simp
  then have "\<not> div10_overflows (v div 100)"
    using float_overflow_bound_large by (simp add: div10_overflows_def)
  then show ?thesis using v by (simp add: humanize_number_def format_div10_def)
qed

lemma humanize_number_m:
  assumes v: "1000000 < v \<and> v \<le> 1000000000"
  shows "humanize_number (Some v) = Inr (Formatted (v div 100000) (py ''m''))"
proof -
  have "v div 100000 \<le> 1000000000 div 100000" using v by (intro zdiv_mono1) simp_all
  moreover have "0 \<le> v div 100000" using v by (simp add: pos_imp_zdiv_nonneg_iff)
  ultimately have "0 \<le> v div 100000 \<and> v div 100000 \<le> 10000" by simp
  then have "\<not> div10_overflows (v div 100000)"
    using float_overflow_bound_large by (simp add: div10_overflows_def)
  then show ?thesis using v by (simp add: humanize_number_def format_div10_def)
qed

lemma humanize_number_B:
  assumes v: "1000000000 < v \<and> v < 1000000000 * float_overflow_bound"
  shows "humanize_number (Some v) = Inr (Formatted (v div 100000000) (py ''B''))"
proof -
  have "\<not> div10_overflows (v div 100000000)" using v by (simp add: div10_overflows_B)
  then show ?thesis using v by (simp add: humanize_number_def format_div10_def)
qed

lemma humanize_number_overflow:
  assumes v: "1000000000 * float_overflow_bound \<le> v"
  shows "humanize_number (Some v) = Inl OverflowError"
proof -
  have big: "1000000000 < v" using v float_overflow_bound_large by simp
  then have "0 \<le> v" by simp
  then have "div10_overflows (v div 100000000)" using v by (simp only: div10_overflows_B)
  then show ?thesis using big by (simp add: humanize_number_def format_div10_def)
qed

text \<open>
  Claim C10, as amended.  The thresholds of \<open>humanize_number\<close> are strict: \<open>None\<close> yields
  the empty string; a value of at most 1000 is returned as the integer itself; a value
  above 1000 and at most 1000000 is formatted with the suffix \<open>k\<close>, one above 1000000 and
  at most 1000000000 with \<open>m\<close>, and one above 1000000000 with \<open>B\<close>, unless its division
  overflows the floats, when OverflowError is raised.  The exact values 1000000 and
  1000000000 therefore fall in the tier below their own, \<open>k\<close> and \<open>m\<close>.
\<close>

theorem humanize_number_tiers:
  "humanize_number None = Inr (Text [])
   \<and> (v \<le> 1000 \<longrightarrow> humanize_number (Some v) = Inr (Number v))
   \<and> (1000 < v \<and> v \<le> 1000000 \<longrightarrow>
        humanize_number (Some v) = Inr (Formatted (v div 100) (py ''k'')))
   \<and> (1000000 < v \<and> v \<le> 1000000000 \<longrightarrow>
        humanize_number (Some v) = Inr (Formatted (v div 100000) (py ''m'')))
   \<and> (1000000000 < v \<and> v < 1000000000 * float_overflow_bound \<longrightarrow>
        humanize_number (Some v) = Inr (Formatted (v div 100000000) (py ''B'')))
   \<and> (1000000000 * float_overflow_bound \<le> v \<longrightarrow> humanize_number (Some v) = Inl OverflowError)"
  using humanize_number_None humanize_number_small[of v] humanize_number_k[of v]
    humanize_number_m[of v] humanize_number_B[of v] humanize_number_overflow[of v]
  by blast

theorem humanize_number_tiers_witness:
  "humanize_number (Some 1000) = Inr (Number 1000)
   \<and> humanize_number (Some 1001) = Inr (Formatted 10 (py ''k''))
   \<and> humanize_number (Some 1000000) = Inr (Formatted 10000 (py ''k''))
   \<and> humanize_number (Some 1000001) = Inr (Formatted 10 (py ''m''))
   \<and> humanize_number (Some 1000000000) = Inr (Formatted 10000 (py ''m''))
   \<and> humanize_number (Some 1000000001) = Inr (Formatted 10 (py ''B''))
   \<and> humanize_number (Some (10 ^ 318)) = Inl OverflowError"
proof -
  have small: "(1000000001::int) < 1000000000 * float_overflow_bound"
    using float_overflow_bound_large by simp
  have huge: "1000000000 * float_overflow_bound \<le> (10 ^ 318 :: int)"
    by (simp add: float_overflow_bound_def)
  have overflow: "humanize_number (Some (10 ^ 318)) = Inl OverflowError"
    using humanize_number_tiers[of "10 ^ 318"] huge by blast
  have "humanize_number (Some 1000) = Inr (Number 1000)"
    using humanize_number_tiers[of 1000] by simp
  moreover have "humanize_number (Some 1001) = Inr (Formatted 10 (py ''k''))"
    using humanize_number_tiers[of 1001] by simp
  moreover have "humanize_number (Some 1000000) = Inr (Formatted 10000 (py ''k''))"
    using humanize_number_tiers[of 1000000] by simp
  moreover have "humanize_number (Some 1000001) = Inr (Formatted 10 (py ''m''))"
    using humanize_number_tiers[of 1000001] by simp
  moreover have "humanize_number (Some 1000000000) = Inr (Formatted 10000 (py ''m''))"
    using humanize_number_tiers[of 1000000000] by simp
  moreover have "humanize_number (Some 1000000001) = Inr (Formatted 10 (py ''B''))"
    using humanize_number_tiers[of 1000000001] small by simp
  ultimately show ?thesis using overflow by blast
qed

text \<open>
  Claim C10 as stated has the exact values 1000000 and 1000000000 returned unchanged as
  integers; both exceed 1000 and are formatted.
\<close>

theorem humanize_number_exact_counterexample:
  "humanize_number (Some 1000000) = Inr (Formatted 10000 (py ''k''))
   \<and> humanize_number (Some 1000000) \<noteq> Inr (Number 1000000)
   \<and> humanize_number (Some 1000000000) = Inr (Formatted 10000 (py ''m''))
   \<and> humanize_number (Some 1000000000) \<noteq> Inr (Number 1000000000)"
  by (simp add: humanize_number_def format_div10_def div10_overflows_def float_overflow_bound_def)

end
